theory Spec2Isabelle
  imports Main "HOL-Library.Multiset"
begin

section \<open>The Bak-Tang-Wiesenfeld sandpile of \<^verbatim>\<open>bak_sandpiles.py\<close>\<close>

text \<open>
  The module keeps three globals: \<^verbatim>\<open>grid\<close>, a NumPy array of shape
  \<^verbatim>\<open>(GRID_SIZE, GRID_SIZE)\<close> and dtype \<^verbatim>\<open>int\<close>, the list
  \<^verbatim>\<open>avalanche_sizes\<close> and the counter \<^verbatim>\<open>total_drops\<close>.
  The array is a list of rows, each a list of cells; the constant \<^verbatim>\<open>GRID_SIZE\<close>
  (100 in the source) is the parameter \<open>n\<close> of every operation.

  The cells of the array are signed 64-bit integers. They are integers here, and the
  wrap-around is written out where a cell can leave the 64-bit range: in the
  \<^verbatim>\<open>grid[y, x] += 1\<close> of \<^verbatim>\<open>add_sand\<close>, at a cell that holds \<open>2\<^sup>6\<^sup>3 - 1\<close>. A pass of
  \<^verbatim>\<open>topple\<close> takes 4 only from cells at or above 4 and never raises a cell above the
  larger of 7 and its old value (lemma \<open>topple_pass_cell_bounds\<close>), so no cell leaves the
  range there.
\<close>

type_synonym grid = "int list list"

type_synonym cell = "nat \<times> nat"

record sim_state =
  grid :: grid
  avalanche_sizes :: "int list"
  total_drops :: int

text \<open>\<^verbatim>\<open>np.zeros((GRID_SIZE, GRID_SIZE), dtype=int)\<close> and \<^verbatim>\<open>np.zeros_like(grid)\<close>.\<close>

definition np_zeros :: "nat \<Rightarrow> grid" where
  "np_zeros n = replicate n (replicate n 0)"

definition zeros_like :: "grid \<Rightarrow> grid" where
  "zeros_like g = map (map (\<lambda>_. 0)) g"

text \<open>
  \<^verbatim>\<open>a[y, x] += d\<close> for an index pair inside the array, where the sum stays in the
  64-bit range (the uses in \<^verbatim>\<open>topple\<close>). Every index the source uses
  is guarded or comes from \<^verbatim>\<open>np.where\<close>, so it lies inside an array of the shape
  \<open>n \<times> n\<close> (lemmas \<open>np_where_ge4_in_grid\<close>, \<open>add_sand_shape\<close>, \<open>topple_pass_shape\<close>).
\<close>

definition add_at :: "nat \<Rightarrow> nat \<Rightarrow> int \<Rightarrow> grid \<Rightarrow> grid" where
  "add_at y x d a = a[y := (a ! y)[x := a ! y ! x + d]]"

text \<open>\<^verbatim>\<open>grid += additions\<close>, cell by cell.\<close>

definition grid_add :: "grid \<Rightarrow> grid \<Rightarrow> grid" where
  "grid_add g a = map2 (map2 (+)) g a"

text \<open>\<^verbatim>\<open>np.any(grid >= 4)\<close>.\<close>

definition np_any_ge4 :: "grid \<Rightarrow> bool" where
  "np_any_ge4 g = list_ex (list_ex (\<lambda>v. 4 \<le> v)) g"

text \<open>
  \<^verbatim>\<open>zip(*np.where(grid >= 4))\<close>: the index pairs \<open>(y, x)\<close> of the cells at or above 4,
  in row-major order.
\<close>

definition row_where_ge4 :: "nat \<Rightarrow> int list \<Rightarrow> cell list" where
  "row_where_ge4 y row = map (\<lambda>x. (y, x)) (filter (\<lambda>x. 4 \<le> row ! x) [0..<length row])"

definition np_where_ge4 :: "grid \<Rightarrow> cell list" where
  "np_where_ge4 g = concat (map (\<lambda>y. row_where_ge4 y (g ! y)) [0..<length g])"

text \<open>\<^verbatim>\<open>np.sum(grid)\<close>, the total mass of the grid.\<close>

definition grid_total :: "grid \<Rightarrow> int" where
  "grid_total g = sum_list (map sum_list g)"

text \<open>The shape invariant of the global array: \<open>n\<close> rows of \<open>n\<close> cells.\<close>

definition shape :: "nat \<Rightarrow> grid \<Rightarrow> bool" where
  "shape n g \<longleftrightarrow> length g = n \<and> list_all (\<lambda>row. length row = n) g"

subsection \<open>\<^verbatim>\<open>add_sand\<close>\<close>

text \<open>
  Addition in a signed 64-bit cell: a sum above \<open>2\<^sup>6\<^sup>3 - 1\<close> wraps around to the negative
  end. (A cell holds at least \<open>- 2\<^sup>6\<^sup>3\<close>, so adding 1 cannot leave the range at the
  bottom.)
\<close>

definition int64_wrap :: "int \<Rightarrow> int" where
  "int64_wrap v = (if 2 ^ 63 \<le> v then v - 2 ^ 64 else v)"

text \<open>\<^verbatim>\<open>grid[y, x] += 1\<close> on the 64-bit array.\<close>

definition inc_at :: "nat \<Rightarrow> nat \<Rightarrow> grid \<Rightarrow> grid" where
  "inc_at y x a = a[y := (a ! y)[x := int64_wrap (a ! y ! x + 1)]]"

text \<open>
  The drop counter \<^verbatim>\<open>total_drops\<close> is a Python integer and does not wrap.
\<close>

definition add_sand :: "nat \<Rightarrow> int \<Rightarrow> int \<Rightarrow> sim_state \<Rightarrow> sim_state" where
  "add_sand n x y st =
     (if 0 \<le> x \<and> x < int n \<and> 0 \<le> y \<and> y < int n
      then st\<lparr>grid := inc_at (nat y) (nat x) (grid st),
              total_drops := total_drops st + 1\<rparr>
      else st)"

subsection \<open>\<^verbatim>\<open>topple\<close>\<close>

text \<open>
  The body of the \<^verbatim>\<open>for y, x in zip(...)\<close> loop, on the pair of the grid and the
  scratch array \<^verbatim>\<open>additions\<close>.
\<close>

definition topple_cell :: "nat \<Rightarrow> cell \<Rightarrow> grid \<times> grid \<Rightarrow> grid \<times> grid" where
  "topple_cell n c ga =
     (let y = fst c; x = snd c;
          g = add_at y x (- 4) (fst ga);
          a = snd ga;
          a = (if 0 < x then add_at y (x - 1) 1 a else a);
          a = (if int x < int n - 1 then add_at y (x + 1) 1 a else a);
          a = (if 0 < y then add_at (y - 1) x 1 a else a);
          a = (if int y < int n - 1 then add_at (y + 1) x 1 a else a)
      in (g, a))"

text \<open>
  One pass of the \<^verbatim>\<open>while\<close> loop after the cells to topple are known: the
  \<^verbatim>\<open>for\<close> loop over them, then \<^verbatim>\<open>grid += additions\<close>.
\<close>

definition topple_pass :: "nat \<Rightarrow> cell list \<Rightarrow> grid \<Rightarrow> grid" where
  "topple_pass n idxs g =
     (let ga = fold (topple_cell n) idxs (g, zeros_like g)
      in grid_add (fst ga) (snd ga))"

text \<open>
  The \<^verbatim>\<open>while np.any(grid >= 4)\<close> loop with its running total
  \<^verbatim>\<open>total_avalanche_size_for_this_drop\<close>, here \<open>tot\<close>. The loop may not
  return, so the result is an option; \<open>None\<close> is a run that never ends.
\<close>

partial_function (option) topple_loop :: "nat \<Rightarrow> grid \<Rightarrow> int \<Rightarrow> (grid \<times> int) option" where
  "topple_loop n g tot =
     (if np_any_ge4 g then
        (let idxs = np_where_ge4 g in
         if length idxs = 0 then Some (g, tot)
         else topple_loop n (topple_pass n idxs g) (tot + int (length idxs)))
      else Some (g, tot))"

declare topple_loop.simps [code]

definition topple :: "nat \<Rightarrow> sim_state \<Rightarrow> (sim_state \<times> int) option" where
  "topple n st =
     (case topple_loop n (grid st) 0 of
        None \<Rightarrow> None
      | Some (g, sz) \<Rightarrow> Some (st\<lparr>grid := g\<rparr>, sz))"

subsection \<open>\<^verbatim>\<open>record_avalanche\<close> and the simulation step of \<^verbatim>\<open>main\<close>\<close>

definition record_avalanche :: "int \<Rightarrow> sim_state \<Rightarrow> sim_state" where
  "record_avalanche sz st =
     (if 0 < sz then st\<lparr>avalanche_sizes := avalanche_sizes st @ [sz]\<rparr> else st)"

text \<open>
  One iteration of the inner loop of \<^verbatim>\<open>main\<close>: \<^verbatim>\<open>add_sand\<close>, \<^verbatim>\<open>topple\<close>,
  \<^verbatim>\<open>record_avalanche\<close>. The source always drops at the centre; the target is a
  parameter here.
\<close>

definition drop_cycle :: "nat \<Rightarrow> int \<times> int \<Rightarrow> sim_state \<Rightarrow> sim_state option" where
  "drop_cycle n xy st =
     (case topple n (add_sand n (fst xy) (snd xy) st) of
        None \<Rightarrow> None
      | Some (st', sz) \<Rightarrow> Some (record_avalanche sz st'))"

fun run_drops :: "nat \<Rightarrow> (int \<times> int) list \<Rightarrow> sim_state \<Rightarrow> sim_state option" where
  "run_drops n [] st = Some st"
| "run_drops n (xy # rest) st =
     (case drop_cycle n xy st of None \<Rightarrow> None | Some st' \<Rightarrow> run_drops n rest st')"

section \<open>Notions used to state the properties\<close>

text \<open>The cells of the grid, and the value of the array at a cell \<open>(y, x)\<close>.\<close>

definition in_grid :: "nat \<Rightarrow> cell \<Rightarrow> bool" where
  "in_grid n c \<longleftrightarrow> fst c < n \<and> snd c < n"

definition cells :: "nat \<Rightarrow> cell set" where
  "cells n = {..<n} \<times> {..<n}"

definition cell_at :: "grid \<Rightarrow> cell \<Rightarrow> int" where
  "cell_at g c = g ! fst c ! snd c"

text \<open>Every cell is below the threshold 4: the grid is stable.\<close>

definition stable :: "grid \<Rightarrow> bool" where
  "stable g = list_all (list_all (\<lambda>v. v < 4)) g"

text \<open>The drop target lies inside the grid (the guard of \<^verbatim>\<open>add_sand\<close>).\<close>

definition in_bounds :: "nat \<Rightarrow> int \<times> int \<Rightarrow> bool" where
  "in_bounds n xy \<longleftrightarrow> 0 \<le> fst xy \<and> fst xy < int n \<and> 0 \<le> snd xy \<and> snd xy < int n"

text \<open>
  Two cells are neighbours in the von Neumann sense, without wrapping around the edges:
  same row and adjacent columns, or same column and adjacent rows.
\<close>

definition adjacent :: "cell \<Rightarrow> cell \<Rightarrow> bool" where
  "adjacent c' c \<longleftrightarrow>
     (fst c = fst c' \<and> (snd c = snd c' + 1 \<or> snd c + 1 = snd c')) \<or>
     (snd c = snd c' \<and> (fst c = fst c' + 1 \<or> fst c + 1 = fst c'))"

text \<open>
  What the toppling of the cell \<open>c'\<close> does to the cell \<open>c\<close>: it takes 4 grains from
  \<open>c'\<close> itself (\<open>self_loss\<close>) and the four guarded statements of the loop body put one
  grain each on the cells left, right, above and below \<open>c'\<close> (\<open>spill\<close>).
\<close>

definition self_loss :: "cell \<Rightarrow> cell \<Rightarrow> int" where
  "self_loss c' c = (if c = c' then 4 else 0)"

definition spill :: "nat \<Rightarrow> cell \<Rightarrow> cell \<Rightarrow> int" where
  "spill n c' c =
     (if c = (fst c', snd c' - 1) \<and> 0 < snd c' then 1 else 0) +
     (if c = (fst c', snd c' + 1) \<and> snd c' + 1 < n then 1 else 0) +
     (if c = (fst c' - 1, snd c') \<and> 0 < fst c' then 1 else 0) +
     (if c = (fst c' + 1, snd c') \<and> fst c' + 1 < n then 1 else 0)"

definition cond_add :: "bool \<Rightarrow> nat \<Rightarrow> nat \<Rightarrow> grid \<Rightarrow> grid" where
  "cond_add b y x a = (if b then add_at y x 1 a else a)"

text \<open>
  Grains lost off the boundary. A toppling cell gives away 4 grains; \<open>delivered\<close> counts
  those of its four neighbours that lie inside the grid, and the rest is lost. The loss of
  a pass is the sum over the cells toppled in it (an interior cell contributes 0).
\<close>

definition delivered :: "nat \<Rightarrow> cell \<Rightarrow> int" where
  "delivered n c =
     (if 0 < snd c then 1 else 0) + (if snd c + 1 < n then 1 else 0) +
     (if 0 < fst c then 1 else 0) + (if fst c + 1 < n then 1 else 0)"

definition pass_loss :: "nat \<Rightarrow> cell list \<Rightarrow> int" where
  "pass_loss n idxs = (\<Sum>c\<leftarrow>idxs. 4 - delivered n c)"

text \<open>
  The loop of \<^verbatim>\<open>topple\<close> again, with one more accumulator that the source does not
  have: the grains lost so far. Lemma \<open>topple_loop_lost_erase\<close> shows that dropping this
  accumulator gives \<open>topple_loop\<close> back.
\<close>

partial_function (option) topple_loop_lost ::
    "nat \<Rightarrow> grid \<Rightarrow> int \<Rightarrow> int \<Rightarrow> (grid \<times> int \<times> int) option" where
  "topple_loop_lost n g tot lost =
     (if np_any_ge4 g then
        (let idxs = np_where_ge4 g in
         if length idxs = 0 then Some (g, tot, lost)
         else topple_loop_lost n (topple_pass n idxs g) (tot + int (length idxs))
                (lost + pass_loss n idxs))
      else Some (g, tot, lost))"

declare topple_loop_lost.simps [code]

text \<open>The simulation steps with the loss accumulated across drops.\<close>

definition drop_cycle_lost :: "nat \<Rightarrow> int \<times> int \<Rightarrow> sim_state \<times> int \<Rightarrow> (sim_state \<times> int) option" where
  "drop_cycle_lost n xy sl =
     (let st = add_sand n (fst xy) (snd xy) (fst sl) in
      case topple_loop_lost n (grid st) 0 (snd sl) of
        None \<Rightarrow> None
      | Some (g, sz, lost) \<Rightarrow> Some (record_avalanche sz (st\<lparr>grid := g\<rparr>), lost))"

fun run_drops_lost :: "nat \<Rightarrow> (int \<times> int) list \<Rightarrow> sim_state \<times> int \<Rightarrow> (sim_state \<times> int) option" where
  "run_drops_lost n [] sl = Some sl"
| "run_drops_lost n (xy # rest) sl =
     (case drop_cycle_lost n xy sl of None \<Rightarrow> None | Some sl' \<Rightarrow> run_drops_lost n rest sl')"

text \<open>
  The weight of a cell and the potential of a grid, which every pass lowers: the measure
  of the termination proof.
\<close>

definition neighbour_sum :: "nat \<Rightarrow> (cell \<Rightarrow> int) \<Rightarrow> cell \<Rightarrow> int" where
  "neighbour_sum n f c =
     (if 0 < snd c then f (fst c, snd c - 1) else 0) +
     (if snd c + 1 < n then f (fst c, snd c + 1) else 0) +
     (if 0 < fst c then f (fst c - 1, snd c) else 0) +
     (if fst c + 1 < n then f (fst c + 1, snd c) else 0)"

definition weight :: "nat \<Rightarrow> cell \<Rightarrow> int" where
  "weight n c =
     (int (snd c) + 1) * (int n - int (snd c)) + (int (fst c) + 1) * (int n - int (fst c))"

definition potential :: "nat \<Rightarrow> grid \<Rightarrow> int" where
  "potential n g = (\<Sum>c\<in>cells n. weight n c * max 0 (cell_at g c))"

text \<open>
  Stabilisation with the cells of each pass processed in an arbitrary order: in every
  pass any list \<open>idxs\<close> with the same elements as \<^verbatim>\<open>np.where(grid >= 4)\<close> may be
  used. The three rules are the three exits of the loop body.
\<close>

inductive topple_any_order :: "nat \<Rightarrow> grid \<Rightarrow> int \<Rightarrow> grid \<times> int \<Rightarrow> bool" where
  finished: "\<not> np_any_ge4 g \<Longrightarrow> topple_any_order n g tot (g, tot)"
| broke: "np_any_ge4 g \<Longrightarrow> mset idxs = mset (np_where_ge4 g) \<Longrightarrow> length idxs = 0 \<Longrightarrow>
     topple_any_order n g tot (g, tot)"
| pass: "np_any_ge4 g \<Longrightarrow> mset idxs = mset (np_where_ge4 g) \<Longrightarrow> length idxs \<noteq> 0 \<Longrightarrow>
     topple_any_order n (topple_pass n idxs g) (tot + int (length idxs)) r \<Longrightarrow>
     topple_any_order n g tot r"

section \<open>Supporting lemmas\<close>

subsection \<open>\<^verbatim>\<open>np.any\<close> and \<^verbatim>\<open>np.where\<close>\<close>

lemma np_any_ge4_iff: "np_any_ge4 g \<longleftrightarrow> (\<exists>y < length g. \<exists>x < length (g ! y). 4 \<le> g ! y ! x)"
  unfolding np_any_ge4_def list_ex_iff by (metis in_set_conv_nth)

lemma set_row_where_ge4: "set (row_where_ge4 y row) = {(y, x) | x. x < length row \<and> 4 \<le> row ! x}"
  by (auto simp: row_where_ge4_def)

lemma set_np_where_ge4:
  "set (np_where_ge4 g) = {(y, x) | y x. y < length g \<and> x < length (g ! y) \<and> 4 \<le> g ! y ! x}"
  by (auto simp: np_where_ge4_def set_row_where_ge4)

lemma np_where_nonempty: "np_any_ge4 g \<Longrightarrow> np_where_ge4 g \<noteq> []"
proof -
  assume "np_any_ge4 g"
  then obtain y x where "y < length g" "x < length (g ! y)" "4 \<le> g ! y ! x"
    by (auto simp: np_any_ge4_iff)
  then have "(y, x) \<in> set (np_where_ge4 g)" by (auto simp: set_np_where_ge4)
  then show ?thesis by auto
qed

lemma distinct_row_where: "distinct (row_where_ge4 y row)"
  by (simp add: row_where_ge4_def distinct_map inj_on_def)

lemma row_where_fst: "c \<in> set (row_where_ge4 y row) \<Longrightarrow> fst c = y"
  by (auto simp: set_row_where_ge4)

lemma distinct_concat_rows:
  "distinct ys \<Longrightarrow> distinct (concat (map (\<lambda>y. row_where_ge4 y (g ! y)) ys))"
proof (induction ys)
  case Nil
  then show ?case by simp
next
  case (Cons y ys)
  have "set (row_where_ge4 y (g ! y)) \<inter> (\<Union>z\<in>set ys. set (row_where_ge4 z (g ! z))) = {}"
    using Cons.prems by (auto dest!: row_where_fst)
  with Cons show ?case by (simp add: distinct_row_where)
qed

lemma distinct_np_where: "distinct (np_where_ge4 g)"
  unfolding np_where_ge4_def by (rule distinct_concat_rows) simp

subsection \<open>The shape of the arrays\<close>

lemma shape_nth: "shape n g \<Longrightarrow> y < n \<Longrightarrow> length (g ! y) = n"
  by (auto simp: shape_def list_all_length)

lemma shape_length: "shape n g \<Longrightarrow> length g = n"
  by (simp add: shape_def)

lemma shapeI: "length g = n \<Longrightarrow> (\<And>y. y < n \<Longrightarrow> length (g ! y) = n) \<Longrightarrow> shape n g"
  by (auto simp: shape_def list_all_length)

lemma add_at_shape: "shape n a \<Longrightarrow> shape n (add_at y x d a)"
proof (rule shapeI)
  assume s: "shape n a"
  show "length (add_at y x d a) = n" using s by (simp add: add_at_def shape_length)
  fix y' assume "y' < n"
  then show "length (add_at y x d a ! y') = n"
    using s by (cases "y' = y") (simp_all add: add_at_def shape_length shape_nth)
qed

lemma add_at_nth: "shape n a \<Longrightarrow> y < n \<Longrightarrow> x < n \<Longrightarrow> y' < n \<Longrightarrow> x' < n \<Longrightarrow>
  add_at y x d a ! y' ! x' = a ! y' ! x' + (if y' = y \<and> x' = x then d else 0)"
  by (simp add: add_at_def shape_length shape_nth nth_list_update)

lemma zeros_like_shape: "shape n g \<Longrightarrow> shape n (zeros_like g)"
  by (auto simp: shape_def zeros_like_def list_all_length)

lemma zeros_like_nth: "shape n g \<Longrightarrow> y < n \<Longrightarrow> x < n \<Longrightarrow> zeros_like g ! y ! x = 0"
  by (auto simp: shape_def zeros_like_def list_all_length)

lemma grid_add_shape: "shape n g \<Longrightarrow> shape n a \<Longrightarrow> shape n (grid_add g a)"
  by (auto simp: shape_def grid_add_def list_all_length)

lemma grid_add_nth: "shape n g \<Longrightarrow> shape n a \<Longrightarrow> y < n \<Longrightarrow> x < n \<Longrightarrow>
   grid_add g a ! y ! x = g ! y ! x + a ! y ! x"
  by (auto simp: shape_def grid_add_def list_all_length)

subsection \<open>The loop body and a pass, cell by cell\<close>

lemma cond_add_shape: "shape n a \<Longrightarrow> shape n (cond_add b y x a)"
  by (simp add: cond_add_def add_at_shape)

lemma cond_add_nth:
  "shape n a \<Longrightarrow> b \<longrightarrow> y < n \<and> x < n \<Longrightarrow> y' < n \<Longrightarrow> x' < n \<Longrightarrow>
    cond_add b y x a ! y' ! x' = a ! y' ! x' + (if (y', x') = (y, x) \<and> b then 1 else 0)"
  by (simp add: cond_add_def add_at_nth)

lemma topple_cell_alt:
  "topple_cell n c ga =
    (add_at (fst c) (snd c) (- 4) (fst ga),
     cond_add (fst c + 1 < n) (fst c + 1) (snd c)
       (cond_add (0 < fst c) (fst c - 1) (snd c)
         (cond_add (snd c + 1 < n) (fst c) (snd c + 1)
           (cond_add (0 < snd c) (fst c) (snd c - 1) (snd ga)))))"
proof -
  have "int k < int n - 1 \<longleftrightarrow> k + 1 < n" for k by auto
  then show ?thesis by (simp add: topple_cell_def Let_def cond_add_def)
qed

lemma topple_cell_shape:
  "shape n (fst ga) \<Longrightarrow> shape n (snd ga) \<Longrightarrow>
   shape n (fst (topple_cell n c ga)) \<and> shape n (snd (topple_cell n c ga))"
  by (simp add: topple_cell_alt cond_add_shape add_at_shape)

lemma topple_cell_fst_nth:
  "shape n (fst ga) \<Longrightarrow> in_grid n c' \<Longrightarrow> y < n \<Longrightarrow> x < n \<Longrightarrow>
   fst (topple_cell n c' ga) ! y ! x = fst ga ! y ! x - self_loss c' (y, x)"
  by (cases c') (simp add: topple_cell_alt add_at_nth in_grid_def self_loss_def)

lemma topple_cell_snd_nth:
  assumes "shape n (snd ga)" "in_grid n c'" "y < n" "x < n"
  shows "snd (topple_cell n c' ga) ! y ! x = snd ga ! y ! x + spill n c' (y, x)"
proof -
  define a1 where "a1 = cond_add (0 < snd c') (fst c') (snd c' - 1) (snd ga)"
  define a2 where "a2 = cond_add (snd c' + 1 < n) (fst c') (snd c' + 1) a1"
  define a3 where "a3 = cond_add (0 < fst c') (fst c' - 1) (snd c') a2"
  define a4 where "a4 = cond_add (fst c' + 1 < n) (fst c' + 1) (snd c') a3"
  have r: "fst c' < n" "snd c' < n" "fst c' - 1 < n" "snd c' - 1 < n"
    using assms(2) by (auto simp: in_grid_def)
  have s: "shape n a1" "shape n a2" "shape n a3"
    by (simp_all add: a1_def a2_def a3_def cond_add_shape assms(1))
  have 1: "a1 ! y ! x = snd ga ! y ! x + (if (y, x) = (fst c', snd c' - 1) \<and> 0 < snd c' then 1 else 0)"
    unfolding a1_def using assms r by (intro cond_add_nth) simp_all
  have 2: "a2 ! y ! x = a1 ! y ! x + (if (y, x) = (fst c', snd c' + 1) \<and> snd c' + 1 < n then 1 else 0)"
    unfolding a2_def using assms r s by (intro cond_add_nth) simp_all
  have 3: "a3 ! y ! x = a2 ! y ! x + (if (y, x) = (fst c' - 1, snd c') \<and> 0 < fst c' then 1 else 0)"
    unfolding a3_def using assms r s by (intro cond_add_nth) simp_all
  have 4: "a4 ! y ! x = a3 ! y ! x + (if (y, x) = (fst c' + 1, snd c') \<and> fst c' + 1 < n then 1 else 0)"
    unfolding a4_def using assms r s by (intro cond_add_nth) simp_all
  have "snd (topple_cell n c' ga) = a4"
    by (simp add: topple_cell_alt a4_def a3_def a2_def a1_def)
  then show ?thesis
    unfolding spill_def using 1 2 3 4 by simp
qed

lemma fold_topple_cell_shape:
  "shape n (fst ga) \<Longrightarrow> shape n (snd ga) \<Longrightarrow>
   shape n (fst (fold (topple_cell n) idxs ga)) \<and> shape n (snd (fold (topple_cell n) idxs ga))"
  by (induction idxs arbitrary: ga) (simp_all add: topple_cell_shape)

lemma fold_topple_cell_fst_nth:
  "shape n (fst ga) \<Longrightarrow> shape n (snd ga) \<Longrightarrow> \<forall>c \<in> set idxs. in_grid n c \<Longrightarrow> y < n \<Longrightarrow> x < n \<Longrightarrow>
   fst (fold (topple_cell n) idxs ga) ! y ! x = fst ga ! y ! x - (\<Sum>c'\<leftarrow>idxs. self_loss c' (y, x))"
  by (induction idxs arbitrary: ga) (simp_all add: topple_cell_shape topple_cell_fst_nth)

lemma fold_topple_cell_snd_nth:
  "shape n (fst ga) \<Longrightarrow> shape n (snd ga) \<Longrightarrow> \<forall>c \<in> set idxs. in_grid n c \<Longrightarrow> y < n \<Longrightarrow> x < n \<Longrightarrow>
   snd (fold (topple_cell n) idxs ga) ! y ! x = snd ga ! y ! x + (\<Sum>c'\<leftarrow>idxs. spill n c' (y, x))"
  by (induction idxs arbitrary: ga) (simp_all add: topple_cell_shape topple_cell_snd_nth)

lemma topple_pass_shape: "shape n g \<Longrightarrow> shape n (topple_pass n idxs g)"
  by (simp add: topple_pass_def Let_def grid_add_shape fold_topple_cell_shape zeros_like_shape)

lemma topple_pass_nth:
  assumes "shape n g" "\<forall>c \<in> set idxs. in_grid n c" "y < n" "x < n"
  shows "topple_pass n idxs g ! y ! x =
     g ! y ! x - (\<Sum>c'\<leftarrow>idxs. self_loss c' (y, x)) + (\<Sum>c'\<leftarrow>idxs. spill n c' (y, x))"
proof -
  let ?ga = "(g, zeros_like g)"
  have s: "shape n (fst ?ga)" "shape n (snd ?ga)"
    using assms(1) by (simp_all add: zeros_like_shape)
  note fs = fold_topple_cell_shape [OF s, of idxs]
  have "topple_pass n idxs g ! y ! x =
      fst (fold (topple_cell n) idxs ?ga) ! y ! x + snd (fold (topple_cell n) idxs ?ga) ! y ! x"
    unfolding topple_pass_def Let_def using fs assms(3,4) by (intro grid_add_nth) simp_all
  also have "fst (fold (topple_cell n) idxs ?ga) ! y ! x = g ! y ! x - (\<Sum>c'\<leftarrow>idxs. self_loss c' (y, x))"
    using fold_topple_cell_fst_nth [OF s assms(2,3,4)] by simp
  also have "snd (fold (topple_cell n) idxs ?ga) ! y ! x = (\<Sum>c'\<leftarrow>idxs. spill n c' (y, x))"
    using fold_topple_cell_snd_nth [OF s assms(2,3,4)] assms by (simp add: zeros_like_nth)
  finally show ?thesis .
qed

subsection \<open>Sums over the cells and the mass after a pass\<close>

lemma finite_cells [simp]: "finite (cells n)"
  by (simp add: cells_def)

lemma in_cells_iff: "c \<in> cells n \<longleftrightarrow> in_grid n c"
  by (cases c) (simp add: cells_def in_grid_def)

lemma grid_total_cells: "shape n g \<Longrightarrow> grid_total g = (\<Sum>c\<in>cells n. cell_at g c)"
proof -
  assume s: "shape n g"
  have "grid_total g = (\<Sum>y = 0..<n. sum_list (g ! y))"
    using s by (simp add: grid_total_def sum_list_sum_nth shape_length)
  also have "\<dots> = (\<Sum>y = 0..<n. \<Sum>x = 0..<n. g ! y ! x)"
    using s by (intro sum.cong refl) (simp add: sum_list_sum_nth shape_nth)
  also have "\<dots> = (\<Sum>c\<in>cells n. cell_at g c)"
    by (simp add: sum.cartesian_product cells_def cell_at_def lessThan_atLeast0 case_prod_beta)
  finally show ?thesis .
qed

lemma sum_cells_point:
  "(\<Sum>c\<in>cells n. f c * (if c = a \<and> b then k else 0)) = (if in_grid n a \<and> b then f a * k else (0::int))"
proof (cases b)
  case True
  have "(\<Sum>c\<in>cells n. f c * (if c = a then k else 0)) = (\<Sum>c\<in>cells n. if c = a then f a * k else 0)"
    by (intro sum.cong refl) simp
  then show ?thesis using True by (simp add: in_cells_iff)
next
  case False
  then show ?thesis by simp
qed

lemma sum_cells_self_loss:
  "in_grid n c' \<Longrightarrow> (\<Sum>c\<in>cells n. f c * self_loss c' c) = 4 * f c'"
  using sum_cells_point [where n = n and f = f and a = c' and b = True and k = 4]
  by (simp add: self_loss_def mult.commute)

lemma sum_cells_spill:
  assumes "in_grid n c'"
  shows "(\<Sum>c\<in>cells n. f c * spill n c' c) = neighbour_sum n f c'"
proof -
  have 1: "(\<Sum>c\<in>cells n. f c * (if c = (fst c', snd c' - 1) \<and> 0 < snd c' then 1 else 0))
      = (if 0 < snd c' then f (fst c', snd c' - 1) else 0)"
    unfolding sum_cells_point using assms by (auto simp: in_grid_def)
  have 2: "(\<Sum>c\<in>cells n. f c * (if c = (fst c', snd c' + 1) \<and> snd c' + 1 < n then 1 else 0))
      = (if snd c' + 1 < n then f (fst c', snd c' + 1) else 0)"
    unfolding sum_cells_point using assms by (auto simp: in_grid_def)
  have 3: "(\<Sum>c\<in>cells n. f c * (if c = (fst c' - 1, snd c') \<and> 0 < fst c' then 1 else 0))
      = (if 0 < fst c' then f (fst c' - 1, snd c') else 0)"
    unfolding sum_cells_point using assms by (auto simp: in_grid_def)
  have 4: "(\<Sum>c\<in>cells n. f c * (if c = (fst c' + 1, snd c') \<and> fst c' + 1 < n then 1 else 0))
      = (if fst c' + 1 < n then f (fst c' + 1, snd c') else 0)"
    unfolding sum_cells_point using assms by (auto simp: in_grid_def)
  show ?thesis
    unfolding spill_def distrib_left sum.distrib neighbour_sum_def 1 2 3 4 ..
qed

lemma sum_cells_sum_list:
  "(\<Sum>c\<in>cells n. f c * (\<Sum>c'\<leftarrow>idxs. h c' c)) = (\<Sum>c'\<leftarrow>idxs. \<Sum>c\<in>cells n. f c * (h c' c :: int))"
  by (induction idxs) (simp_all add: distrib_left sum.distrib)

lemma neighbour_sum_one: "neighbour_sum n (\<lambda>_. 1) c = delivered n c"
  by (simp add: neighbour_sum_def delivered_def)

lemma cell_at_topple_pass:
  assumes "shape n g" "\<forall>c \<in> set idxs. in_grid n c" "in_grid n c"
  shows "cell_at (topple_pass n idxs g) c =
     cell_at g c - (\<Sum>c'\<leftarrow>idxs. self_loss c' c) + (\<Sum>c'\<leftarrow>idxs. spill n c' c)"
  using topple_pass_nth [OF assms(1,2), of "fst c" "snd c"] assms(3)
  by (simp add: cell_at_def in_grid_def)

lemma topple_pass_total:
  assumes "shape n g" "\<forall>c \<in> set idxs. in_grid n c"
  shows "grid_total (topple_pass n idxs g) + pass_loss n idxs = grid_total g"
proof -
  have "grid_total (topple_pass n idxs g) = (\<Sum>c\<in>cells n. cell_at (topple_pass n idxs g) c)"
    using assms(1) by (simp add: grid_total_cells topple_pass_shape)
  also have "\<dots> = (\<Sum>c\<in>cells n. cell_at g c - (\<Sum>c'\<leftarrow>idxs. self_loss c' c) + (\<Sum>c'\<leftarrow>idxs. spill n c' c))"
    using assms by (intro sum.cong refl cell_at_topple_pass) (simp_all add: in_cells_iff)
  also have "\<dots> = grid_total g - (\<Sum>c\<in>cells n. 1 * (\<Sum>c'\<leftarrow>idxs. self_loss c' c))
       + (\<Sum>c\<in>cells n. 1 * (\<Sum>c'\<leftarrow>idxs. spill n c' c))"
    using assms(1) by (simp add: grid_total_cells sum.distrib sum_subtractf)
  also have "(\<Sum>c\<in>cells n. 1 * (\<Sum>c'\<leftarrow>idxs. self_loss c' c)) = (\<Sum>c'\<leftarrow>idxs. 4)"
    unfolding sum_cells_sum_list using assms(2)
    by (intro arg_cong [where f = sum_list] map_cong refl)
      (simp add: sum_cells_self_loss [where f = "\<lambda>_. 1", simplified])
  also have "(\<Sum>c\<in>cells n. 1 * (\<Sum>c'\<leftarrow>idxs. spill n c' c)) = (\<Sum>c'\<leftarrow>idxs. delivered n c')"
    unfolding sum_cells_sum_list using assms(2)
    by (intro arg_cong [where f = sum_list] map_cong refl)
      (simp add: sum_cells_spill [where f = "\<lambda>_. 1", simplified] neighbour_sum_one)
  finally show ?thesis
    by (simp add: pass_loss_def sum_list_subtractf)
qed

subsection \<open>The potential falls in every pass\<close>

text \<open>
  The weight of a cell is positive inside the grid and the weights of the in-grid
  neighbours of a cell add up to at most 4 times its own weight minus 4. A toppling cell
  therefore lowers the weighted sum of the positive cell values by at least 4.
\<close>

lemma weight_nonneg: "in_grid n c \<Longrightarrow> 0 \<le> weight n c"
  by (simp add: weight_def in_grid_def)

lemma potential_nonneg: "0 \<le> potential n g"
  unfolding potential_def by (intro sum_nonneg mult_nonneg_nonneg) (simp_all add: weight_nonneg in_cells_iff)

lemma np_where_ge4_in_grid: "shape n g \<Longrightarrow> c \<in> set (np_where_ge4 g) \<Longrightarrow> in_grid n c"
  by (auto simp: set_np_where_ge4 in_grid_def shape_length shape_nth)

lemma np_where_ge4_iff:
  "shape n g \<Longrightarrow> c \<in> set (np_where_ge4 g) \<longleftrightarrow> in_grid n c \<and> 4 \<le> cell_at g c"
  by (cases c) (auto simp: set_np_where_ge4 in_grid_def shape_length shape_nth cell_at_def)

lemma sum_list_self_loss:
  "distinct idxs \<Longrightarrow> (\<Sum>c'\<leftarrow>idxs. self_loss c' c) = (if c \<in> set idxs then 4 else 0)"
  by (induction idxs) (auto simp: self_loss_def)

lemma spill_nonneg: "0 \<le> spill n c' c"
  by (simp add: spill_def)

lemma sum_list_spill_nonneg: "0 \<le> (\<Sum>c'\<leftarrow>idxs. spill n c' c)"
  by (intro sum_list_nonneg) (auto simp: spill_nonneg)

lemma neighbour_sum_weight:
  assumes "in_grid n c"
  shows "neighbour_sum n (weight n) c \<le> 4 * weight n c - 4"
proof -
  obtain y x where c: "c = (y, x)" by (cases c)
  define N X Y where "N = int n" and "X = int x" and "Y = int y"
  have b: "0 \<le> X" "X < N" "0 \<le> Y" "Y < N"
    using assms by (simp_all add: c in_grid_def N_def X_def Y_def)
  have py: "0 \<le> (Y + 1) * (N - Y)" and px: "0 \<le> (X + 1) * (N - X)"
    using b by simp_all
  have 1: "(if 0 < x then weight n (y, x - 1) else 0) \<le> X * (N - X + 1) + (Y + 1) * (N - Y)"
  proof (cases "0 < x")
    case True
    then have "int (x - 1) = X - 1" by (simp add: X_def)
    then show ?thesis using True by (simp add: weight_def N_def Y_def algebra_simps)
  next
    case False
    then have "X = 0" by (simp add: X_def)
    then show ?thesis using False py by simp
  qed
  have 2: "(if x + 1 < n then weight n (y, x + 1) else 0) \<le> (X + 2) * (N - X - 1) + (Y + 1) * (N - Y)"
  proof (cases "x + 1 < n")
    case True
    then show ?thesis by (simp add: weight_def N_def Y_def X_def algebra_simps)
  next
    case False
    then have "N - X - 1 = 0" using b by (simp add: X_def N_def)
    then show ?thesis using False py by simp
  qed
  have 3: "(if 0 < y then weight n (y - 1, x) else 0) \<le> (X + 1) * (N - X) + Y * (N - Y + 1)"
  proof (cases "0 < y")
    case True
    then have "int (y - 1) = Y - 1" by (simp add: Y_def)
    then show ?thesis using True by (simp add: weight_def N_def X_def algebra_simps)
  next
    case False
    then have "Y = 0" by (simp add: Y_def)
    then show ?thesis using False px by simp
  qed
  have 4: "(if y + 1 < n then weight n (y + 1, x) else 0) \<le> (X + 1) * (N - X) + (Y + 2) * (N - Y - 1)"
  proof (cases "y + 1 < n")
    case True
    then show ?thesis by (simp add: weight_def N_def Y_def X_def algebra_simps)
  next
    case False
    then have "N - Y - 1 = 0" using b by (simp add: Y_def N_def)
    then show ?thesis using False px by simp
  qed
  have e: "X * (N - X + 1) + (Y + 1) * (N - Y) + ((X + 2) * (N - X - 1) + (Y + 1) * (N - Y))
      + ((X + 1) * (N - X) + Y * (N - Y + 1)) + ((X + 1) * (N - X) + (Y + 2) * (N - Y - 1))
      = 4 * ((X + 1) * (N - X) + (Y + 1) * (N - Y)) - 4"
    by (simp add: algebra_simps)
  have w: "weight n c = (X + 1) * (N - X) + (Y + 1) * (N - Y)"
    by (simp add: weight_def c N_def X_def Y_def)
  have "neighbour_sum n (weight n) c \<le>
      X * (N - X + 1) + (Y + 1) * (N - Y) + ((X + 2) * (N - X - 1) + (Y + 1) * (N - Y))
      + ((X + 1) * (N - X) + Y * (N - Y + 1)) + ((X + 1) * (N - X) + (Y + 2) * (N - Y - 1))"
    unfolding neighbour_sum_def c fst_conv snd_conv
    by (intro add_mono 1 2 3 4)
  then show ?thesis unfolding e w .
qed

lemma potential_decreases:
  assumes s: "shape n g" and u: "np_any_ge4 g"
  shows "potential n (topple_pass n (np_where_ge4 g) g) < potential n g"
proof -
  let ?I = "np_where_ge4 g"
  let ?g' = "topple_pass n ?I g"
  let ?S1 = "\<lambda>c. \<Sum>c'\<leftarrow>?I. self_loss c' c"
  let ?S2 = "\<lambda>c. \<Sum>c'\<leftarrow>?I. spill n c' c"
  have I: "\<forall>c\<in>set ?I. in_grid n c" using s by (auto intro: np_where_ge4_in_grid)
  have cellwise: "max 0 (cell_at ?g' c) \<le> max 0 (cell_at g c) - ?S1 c + ?S2 c" if c: "in_grid n c" for c
  proof -
    have e: "cell_at ?g' c = cell_at g c - ?S1 c + ?S2 c" by (rule cell_at_topple_pass [OF s I c])
    have S1: "?S1 c = (if c \<in> set ?I then 4 else 0)"
      by (rule sum_list_self_loss) (rule distinct_np_where)
    have S2: "0 \<le> ?S2 c" by (rule sum_list_spill_nonneg)
    show ?thesis
    proof (cases "c \<in> set ?I")
      case True
      then have "4 \<le> cell_at g c" using s by (simp add: np_where_ge4_iff)
      then show ?thesis using e S1 S2 True by simp
    next
      case False
      then show ?thesis using e S1 S2 by simp
    qed
  qed
  have "potential n ?g' \<le> (\<Sum>c\<in>cells n. weight n c * (max 0 (cell_at g c) - ?S1 c + ?S2 c))"
    unfolding potential_def
    by (intro sum_mono mult_left_mono cellwise) (simp_all add: in_cells_iff weight_nonneg)
  also have "\<dots> = potential n g - (\<Sum>c\<in>cells n. weight n c * ?S1 c) + (\<Sum>c\<in>cells n. weight n c * ?S2 c)"
    by (simp add: potential_def algebra_simps sum.distrib sum_subtractf)
  also have "(\<Sum>c\<in>cells n. weight n c * ?S1 c) = (\<Sum>c'\<leftarrow>?I. 4 * weight n c')"
    unfolding sum_cells_sum_list using I
    by (intro arg_cong [where f = sum_list] map_cong refl) (simp add: sum_cells_self_loss)
  also have "(\<Sum>c\<in>cells n. weight n c * ?S2 c) = (\<Sum>c'\<leftarrow>?I. neighbour_sum n (weight n) c')"
    unfolding sum_cells_sum_list using I
    by (intro arg_cong [where f = sum_list] map_cong refl) (simp add: sum_cells_spill)
  also have "(\<Sum>c'\<leftarrow>?I. neighbour_sum n (weight n) c') \<le> (\<Sum>c'\<leftarrow>?I. 4 * weight n c' - 4)"
    using I by (intro sum_list_mono neighbour_sum_weight) simp
  also have "\<dots> = (\<Sum>c'\<leftarrow>?I. 4 * weight n c') - 4 * int (length ?I)"
    by (simp add: sum_list_subtractf sum_list_triv)
  finally have "potential n ?g' \<le> potential n g - 4 * int (length ?I)" by simp
  moreover have "?I \<noteq> []" using u by (rule np_where_nonempty)
  ultimately show ?thesis by (cases ?I) simp_all
qed

subsection \<open>The steps of the loop body commute\<close>

lemma add_at_commute: "add_at y x d (add_at y' x' d' a) = add_at y' x' d' (add_at y x d a)"
  apply (cases "y = y'")
   apply (cases "y < length a")
    apply (cases "x = x'")
     apply (cases "x < length (a ! y)")
  apply (auto simp: add_at_def nth_list_update list_update_swap add.commute add.left_commute list_update_beyond)
  done

lemma cond_add_commute:
  "cond_add b y x (cond_add b' y' x' a) = cond_add b' y' x' (cond_add b y x a)"
  by (simp add: cond_add_def add_at_commute)

lemma topple_cell_commute:
  "topple_cell n c (topple_cell n c' ga) = topple_cell n c' (topple_cell n c ga)"
proof -
  have "fst (topple_cell n c (topple_cell n c' ga)) = fst (topple_cell n c' (topple_cell n c ga))"
    by (simp add: topple_cell_alt add_at_commute)
  moreover
  have "snd (topple_cell n c (topple_cell n c' ga)) = snd (topple_cell n c' (topple_cell n c ga))"
    by (simp add: topple_cell_alt cond_add_commute)
  ultimately show ?thesis by (rule prod_eqI)
qed

lemma topple_pass_permute:
  assumes "mset idxs = mset idxs'"
  shows "topple_pass n idxs g = topple_pass n idxs' g"
proof -
  have "fold (topple_cell n) idxs = fold (topple_cell n) idxs'"
    using assms by (intro fold_multiset_equiv) (auto simp: fun_eq_iff topple_cell_commute)
  then show ?thesis by (simp add: topple_pass_def)
qed

subsection \<open>Induction over the passes of the loop\<close>

lemma topple_induct [consumes 1, case_names stable pass]:
  assumes "shape n g"
    and "\<And>g. shape n g \<Longrightarrow> \<not> np_any_ge4 g \<Longrightarrow> P g"
    and "\<And>g. shape n g \<Longrightarrow> np_any_ge4 g \<Longrightarrow> P (topple_pass n (np_where_ge4 g) g) \<Longrightarrow> P g"
  shows "P g"
  using assms(1)
proof (induction "nat (potential n g)" arbitrary: g rule: less_induct)
  case less
  show ?case
  proof (cases "np_any_ge4 g")
    case False
    with less.prems show ?thesis by (rule assms(2))
  next
    case True
    let ?g' = "topple_pass n (np_where_ge4 g) g"
    have "potential n ?g' < potential n g"
      using less.prems True by (rule potential_decreases)
    then have "nat (potential n ?g') < nat (potential n g)"
      using potential_nonneg [of n ?g'] by simp
    then have "P ?g'"
      using less.prems by (intro less.hyps topple_pass_shape)
    with less.prems True show ?thesis by (rule assms(3))
  qed
qed

subsection \<open>Facts about \<^verbatim>\<open>add_sand\<close>\<close>

lemma add_sand_out_of_bounds: "\<not> in_bounds n (x, y) \<Longrightarrow> add_sand n x y st = st"
  by (auto simp: add_sand_def in_bounds_def)

lemma int64_wrap_in_range: "v < 2 ^ 63 \<Longrightarrow> int64_wrap v = v"
  by (simp add: int64_wrap_def)

lemma inc_at_add_at: "inc_at y x a = add_at y x (int64_wrap (a ! y ! x + 1) - a ! y ! x) a"
  by (simp add: inc_at_def add_at_def)

lemma inc_at_no_overflow: "a ! y ! x < 2 ^ 63 - 1 \<Longrightarrow> inc_at y x a = add_at y x 1 a"
  by (simp add: inc_at_add_at int64_wrap_in_range)

lemma inc_at_shape: "shape n a \<Longrightarrow> shape n (inc_at y x a)"
  by (simp add: inc_at_add_at add_at_shape)

lemma add_sand_in_bounds:
  "in_bounds n (x, y) \<Longrightarrow>
   add_sand n x y st = st\<lparr>grid := inc_at (nat y) (nat x) (grid st), total_drops := total_drops st + 1\<rparr>"
  by (auto simp: add_sand_def in_bounds_def)

lemma add_sand_no_overflow:
  "in_bounds n (x, y) \<Longrightarrow> cell_at (grid st) (nat y, nat x) < 2 ^ 63 - 1 \<Longrightarrow>
   add_sand n x y st = st\<lparr>grid := add_at (nat y) (nat x) 1 (grid st), total_drops := total_drops st + 1\<rparr>"
  by (simp add: add_sand_in_bounds inc_at_no_overflow cell_at_def)

lemma add_sand_shape: "shape n (grid st) \<Longrightarrow> shape n (grid (add_sand n x y st))"
  by (simp add: add_sand_def inc_at_shape)

text \<open>At the top of the 64-bit range the cell wraps around, as the array does.\<close>

lemma add_sand_wraps_at_max:
  "add_sand 1 0 0 \<lparr>grid = [[2 ^ 63 - 1]], avalanche_sizes = [], total_drops = 0\<rparr>
     = \<lparr>grid = [[- (2 ^ 63)]], avalanche_sizes = [], total_drops = 1\<rparr>"
  by (simp add: add_sand_def inc_at_def int64_wrap_def)

lemma cell_at_add_at:
  "shape n a \<Longrightarrow> y < n \<Longrightarrow> x < n \<Longrightarrow> in_grid n c \<Longrightarrow>
   cell_at (add_at y x d a) c = cell_at a c + (if c = (y, x) then d else 0)"
  by (cases c) (simp add: cell_at_def in_grid_def add_at_nth)

subsection \<open>The loop of \<^verbatim>\<open>topple\<close>\<close>

lemma stable_iff_not_any: "stable g \<longleftrightarrow> \<not> np_any_ge4 g"
  by (auto simp: stable_def np_any_ge4_def list_all_iff list_ex_iff not_le)

lemma topple_loop_stable: "\<not> np_any_ge4 g \<Longrightarrow> topple_loop n g tot = Some (g, tot)"
  by (subst topple_loop.simps) simp

lemma topple_loop_unstable:
  "np_any_ge4 g \<Longrightarrow> topple_loop n g tot =
     topple_loop n (topple_pass n (np_where_ge4 g) g) (tot + int (length (np_where_ge4 g)))"
  using np_where_nonempty [of g] by (subst topple_loop.simps) (simp add: Let_def)

lemma topple_loop_lost_stable:
  "\<not> np_any_ge4 g \<Longrightarrow> topple_loop_lost n g tot lost = Some (g, tot, lost)"
  by (subst topple_loop_lost.simps) simp

lemma topple_loop_lost_unstable:
  "np_any_ge4 g \<Longrightarrow> topple_loop_lost n g tot lost =
     topple_loop_lost n (topple_pass n (np_where_ge4 g) g) (tot + int (length (np_where_ge4 g)))
       (lost + pass_loss n (np_where_ge4 g))"
  using np_where_nonempty [of g] by (subst topple_loop_lost.simps) (simp add: Let_def)

lemma topple_pass_where_total:
  "shape n g \<Longrightarrow>
   grid_total (topple_pass n (np_where_ge4 g) g) + pass_loss n (np_where_ge4 g) = grid_total g"
  by (rule topple_pass_total) (auto intro: np_where_ge4_in_grid)

lemma delivered_le: "delivered n c \<le> 4"
  by (simp add: delivered_def)

lemma pass_loss_nonneg: "0 \<le> pass_loss n idxs"
  unfolding pass_loss_def by (intro sum_list_nonneg) (auto simp: delivered_le)

text \<open>The loop returns, with a stable grid of the same shape, and the mass is accounted for.\<close>

lemma topple_loop_lost_returns:
  assumes "shape n g"
  shows "\<exists>g' k l. topple_loop_lost n g tot lost = Some (g', tot + k, lost + l) \<and>
           topple_loop n g tot = Some (g', tot + k) \<and>
           shape n g' \<and> stable g' \<and> 0 \<le> k \<and> 0 \<le> l \<and>
           (k = 0 \<longleftrightarrow> stable g) \<and>
           grid_total g' + l = grid_total g"
  using assms
proof (induction g arbitrary: tot lost rule: topple_induct)
  case (stable g)
  then show ?case
    by (intro exI [of _ g] exI [of _ 0])
       (simp add: topple_loop_stable topple_loop_lost_stable stable_iff_not_any)
next
  case (pass g)
  let ?I = "np_where_ge4 g"
  let ?g = "topple_pass n ?I g"
  from pass.IH [of "tot + int (length ?I)" "lost + pass_loss n ?I"]
  obtain g' k l where r:
    "topple_loop_lost n ?g (tot + int (length ?I)) (lost + pass_loss n ?I)
       = Some (g', tot + int (length ?I) + k, lost + pass_loss n ?I + l)"
    "topple_loop n ?g (tot + int (length ?I)) = Some (g', tot + int (length ?I) + k)"
    "shape n g'" "stable g'" "0 \<le> k" "0 \<le> l" "grid_total g' + l = grid_total ?g"
    by blast
  have ne: "0 < int (length ?I)" using np_where_nonempty [OF pass.hyps(2)] by simp
  have 1: "topple_loop_lost n g tot lost = Some (g', tot + (int (length ?I) + k), lost + (pass_loss n ?I + l))"
    using r(1) pass.hyps(2) by (simp add: topple_loop_lost_unstable add.assoc)
  have 2: "topple_loop n g tot = Some (g', tot + (int (length ?I) + k))"
    using r(2) pass.hyps(2) by (simp add: topple_loop_unstable add.assoc)
  have 3: "0 \<le> int (length ?I) + k" using r(5) by simp
  have 4: "0 \<le> pass_loss n ?I + l" using r(6) pass_loss_nonneg [of n ?I] by simp
  have "0 < int (length ?I) + k" using ne r(5) by linarith
  then have 5: "(int (length ?I) + k = 0) = stable g"
    using pass.hyps(2) by (simp add: stable_iff_not_any)
  have 6: "grid_total g' + (pass_loss n ?I + l) = grid_total g"
    using r(7) topple_pass_where_total [OF pass.hyps(1)] by simp
  from 1 2 r(3,4) 3 4 5 6 show ?case by blast
qed

subsection \<open>The simulation step and runs of drops\<close>

lemma topple_loop_lost_erase:
  "shape n g \<Longrightarrow>
   map_option (\<lambda>r. (fst r, fst (snd r))) (topple_loop_lost n g tot lost) = topple_loop n g tot"
  using topple_loop_lost_returns [of n g tot lost] by auto

lemma stable_cells: "shape n g \<Longrightarrow> stable g \<longleftrightarrow> (\<forall>c. in_grid n c \<longrightarrow> cell_at g c < 4)"
proof -
  assume s: "shape n g"
  have "stable g \<longleftrightarrow> (\<forall>y<n. \<forall>x<n. g ! y ! x < 4)"
    using s by (auto simp: stable_def list_all_length shape_length shape_nth)
  also have "\<dots> \<longleftrightarrow> (\<forall>c. in_grid n c \<longrightarrow> cell_at g c < 4)"
    by (auto simp: in_grid_def cell_at_def)
  finally show ?thesis .
qed

lemma grid_total_add_at:
  assumes "shape n a" "y < n" "x < n"
  shows "grid_total (add_at y x d a) = grid_total a + d"
proof -
  have "grid_total (add_at y x d a) = (\<Sum>c\<in>cells n. cell_at (add_at y x d a) c)"
    using assms(1) by (simp add: grid_total_cells add_at_shape)
  also have "\<dots> = (\<Sum>c\<in>cells n. cell_at a c + 1 * (if c = (y, x) \<and> True then d else 0))"
    using assms by (intro sum.cong refl) (simp add: cell_at_add_at in_cells_iff)
  also have "\<dots> = grid_total a + d"
    unfolding sum.distrib sum_cells_point using assms
    by (simp add: grid_total_cells in_grid_def)
  finally show ?thesis .
qed

lemma stable_below_max:
  assumes "shape n g" "stable g" "in_bounds n (x, y)"
  shows "cell_at g (nat y, nat x) < 2 ^ 63 - 1"
proof -
  have "in_grid n (nat y, nat x)" using assms(3) by (auto simp: in_bounds_def in_grid_def)
  then have "cell_at g (nat y, nat x) < 4" using assms(1,2) stable_cells by blast
  then show ?thesis by simp
qed

lemma grid_total_add_sand:
  assumes "shape n (grid st)" "stable (grid st)"
  shows "grid_total (grid (add_sand n x y st))
    = grid_total (grid st) + (if in_bounds n (x, y) then 1 else 0)"
proof (cases "in_bounds n (x, y)")
  case True
  then have "nat y < n" "nat x < n" by (auto simp: in_bounds_def)
  then show ?thesis
    using True assms
    by (simp add: add_sand_no_overflow [OF True stable_below_max] grid_total_add_at)
next
  case False
  then show ?thesis by (simp add: add_sand_out_of_bounds)
qed

lemma total_drops_add_sand:
  "total_drops (add_sand n x y st) = total_drops st + (if in_bounds n (x, y) then 1 else 0)"
  by (auto simp: add_sand_out_of_bounds add_sand_in_bounds)

lemma topple_returns:
  assumes "shape n (grid st)"
  shows "\<exists>g' sz. topple n st = Some (st\<lparr>grid := g'\<rparr>, sz) \<and> shape n g' \<and> stable g' \<and>
           topple_loop n (grid st) 0 = Some (g', sz)"
  using topple_loop_lost_returns [OF assms, of 0 0] by (auto simp: topple_def)

lemma grid_record_avalanche [simp]: "grid (record_avalanche sz st) = grid st"
  by (simp add: record_avalanche_def)

lemma total_drops_record_avalanche [simp]: "total_drops (record_avalanche sz st) = total_drops st"
  by (simp add: record_avalanche_def)

lemma drop_cycle_accounts:
  assumes "shape n (grid st)" "stable (grid st)"
  shows "\<exists>st' l. drop_cycle n xy st = Some st' \<and>
           drop_cycle_lost n xy (st, lost) = Some (st', lost + l) \<and>
           shape n (grid st') \<and> stable (grid st') \<and>
           grid_total (grid st') + l = grid_total (grid st) + (if in_bounds n xy then 1 else 0) \<and>
           total_drops st' = total_drops st + (if in_bounds n xy then 1 else 0)"
proof -
  let ?st = "add_sand n (fst xy) (snd xy) st"
  have s: "shape n (grid ?st)" using assms(1) by (rule add_sand_shape)
  from topple_loop_lost_returns [OF s, of 0 lost]
  obtain g' k l where r: "topple_loop_lost n (grid ?st) 0 lost = Some (g', k, lost + l)"
    "topple_loop n (grid ?st) 0 = Some (g', k)" "shape n g'" "stable g'"
    "grid_total g' + l = grid_total (grid ?st)"
    by auto
  let ?st' = "record_avalanche k (?st\<lparr>grid := g'\<rparr>)"
  have 1: "drop_cycle n xy st = Some ?st'"
    using r(2) by (simp add: drop_cycle_def topple_def)
  have 2: "drop_cycle_lost n xy (st, lost) = Some (?st', lost + l)"
    using r(1) by (simp add: drop_cycle_lost_def)
  have 3: "grid_total (grid ?st') + l = grid_total (grid st) + (if in_bounds n xy then 1 else 0)"
    using r(5) grid_total_add_sand [OF assms, of "fst xy" "snd xy"] by simp
  have 4: "total_drops ?st' = total_drops st + (if in_bounds n xy then 1 else 0)"
    using total_drops_add_sand [of n "fst xy" "snd xy" st] by simp
  have 5: "shape n (grid ?st')" "stable (grid ?st')" using r(3,4) by simp_all
  from 1 2 3 4 5 show ?thesis by blast
qed

lemma run_drops_accounts:
  assumes "shape n (grid st)" "stable (grid st)"
  shows "\<exists>st' l. run_drops n drops st = Some st' \<and>
           run_drops_lost n drops (st, lost) = Some (st', lost + l) \<and>
           shape n (grid st') \<and>
           grid_total (grid st') + l = grid_total (grid st) + int (length (filter (in_bounds n) drops)) \<and>
           total_drops st' = total_drops st + int (length (filter (in_bounds n) drops))"
  using assms
proof (induction drops arbitrary: st lost)
  case Nil
  then show ?case by (intro exI [of _ st] exI [of _ 0]) simp
next
  case (Cons xy drops)
  from drop_cycle_accounts [OF Cons.prems, of xy lost]
  obtain st1 l1 where 1: "drop_cycle n xy st = Some st1"
    "drop_cycle_lost n xy (st, lost) = Some (st1, lost + l1)" "shape n (grid st1)"
    "grid_total (grid st1) + l1 = grid_total (grid st) + (if in_bounds n xy then 1 else 0)"
    "total_drops st1 = total_drops st + (if in_bounds n xy then 1 else 0)"
    and t1: "stable (grid st1)"
    by blast
  from Cons.IH [OF 1(3) t1, of "lost + l1"]
  obtain st' l where 2: "run_drops n drops st1 = Some st'"
    "run_drops_lost n drops (st1, lost + l1) = Some (st', lost + l1 + l)" "shape n (grid st')"
    "grid_total (grid st') + l = grid_total (grid st1) + int (length (filter (in_bounds n) drops))"
    "total_drops st' = total_drops st1 + int (length (filter (in_bounds n) drops))"
    by blast
  have a: "run_drops n (xy # drops) st = Some st'" using 1(1) 2(1) by simp
  have b: "run_drops_lost n (xy # drops) (st, lost) = Some (st', lost + (l1 + l))"
    using 1(2) 2(2) by (simp add: add.assoc)
  have c: "grid_total (grid st') + (l1 + l)
      = grid_total (grid st) + int (length (filter (in_bounds n) (xy # drops)))"
    using 1(4) 2(4) by (cases "in_bounds n xy") simp_all
  have d: "total_drops st' = total_drops st + int (length (filter (in_bounds n) (xy # drops)))"
    using 1(5) 2(5) by (cases "in_bounds n xy") simp_all
  from a b 2(3) c d show ?case by blast
qed

subsection \<open>Passes in any order\<close>

lemma topple_any_order_loop:
  "topple_any_order n g tot r \<Longrightarrow> topple_loop n g tot = Some r"
proof (induction rule: topple_any_order.induct)
  case (finished g n tot)
  then show ?case by (rule topple_loop_stable)
next
  case (broke g idxs n tot)
  from broke(2,3) have "np_where_ge4 g = []"
    by (metis length_0_conv mset_eq_length)
  with np_where_nonempty [OF broke(1)] show ?case by simp
next
  case (pass g idxs n tot r)
  have "topple_pass n (np_where_ge4 g) g = topple_pass n idxs g"
    using pass(2) by (intro topple_pass_permute) simp
  moreover have "length (np_where_ge4 g) = length idxs"
    using pass(2) by (metis mset_eq_length)
  ultimately show ?case
    using pass(1) pass.IH by (simp add: topple_loop_unstable)
qed

lemma topple_loop_any_order:
  assumes "shape n g"
  shows "\<exists>r. topple_any_order n g tot r"
  using assms
proof (induction g arbitrary: tot rule: topple_induct)
  case (stable g)
  then show ?case by (auto intro: topple_any_order.finished)
next
  case (pass g)
  from pass.IH obtain r where r:
    "topple_any_order n (topple_pass n (np_where_ge4 g) g) (tot + int (length (np_where_ge4 g))) r"
    by blast
  have l: "length (np_where_ge4 g) \<noteq> 0"
    using np_where_nonempty [OF pass.hyps(2)] by simp
  have "topple_any_order n g tot r"
    by (rule topple_any_order.pass [OF pass.hyps(2) refl l r])
  then show ?case ..
qed

subsection \<open>A pass, cell by cell\<close>

lemma spill_adjacent:
  "in_grid n c \<Longrightarrow> in_grid n c' \<Longrightarrow> spill n c' c = (if adjacent c' c then 1 else 0)"
  by (cases c, cases c') (auto simp: spill_def adjacent_def in_grid_def)

lemma sum_list_indicator: "(\<Sum>x\<leftarrow>xs. if P x then 1 else 0) = int (length (filter P xs))"
  by (induction xs) simp_all

lemma sum_list_spill_adjacent:
  assumes "in_grid n c" "\<forall>c'\<in>set idxs. in_grid n c'"
  shows "(\<Sum>c'\<leftarrow>idxs. spill n c' c) = int (length (filter (\<lambda>c'. adjacent c' c) idxs))"
proof -
  have "(\<Sum>c'\<leftarrow>idxs. spill n c' c) = (\<Sum>c'\<leftarrow>idxs. if adjacent c' c then 1 else 0)"
    using assms by (intro arg_cong [where f = sum_list] map_cong refl) (simp add: spill_adjacent)
  then show ?thesis by (simp add: sum_list_indicator)
qed

subsection \<open>A drop that topples nothing\<close>

lemma stable_add_sand:
  assumes s: "shape n (grid st)" and t: "stable (grid st)" and b: "in_bounds n (x, y)"
    and v: "cell_at (grid st) (nat y, nat x) + 1 < 4"
  shows "stable (grid (add_sand n x y st))"
proof -
  have r: "nat y < n" "nat x < n" using b by (auto simp: in_bounds_def)
  have "cell_at (add_at (nat y) (nat x) 1 (grid st)) c < 4" if c: "in_grid n c" for c
  proof (cases "c = (nat y, nat x)")
    case True
    then show ?thesis using v s r c by (simp add: cell_at_add_at)
  next
    case False
    moreover have "cell_at (grid st) c < 4" using t c stable_cells [OF s] by blast
    ultimately show ?thesis using s r c by (simp add: cell_at_add_at)
  qed
  moreover have "shape n (add_at (nat y) (nat x) 1 (grid st))" using s by (rule add_at_shape)
  ultimately have "stable (add_at (nat y) (nat x) 1 (grid st))"
    using stable_cells [of n "add_at (nat y) (nat x) 1 (grid st)"] by blast
  then show ?thesis
    using b v by (simp add: add_sand_no_overflow)
qed

subsection \<open>Cell values stay in range\<close>

text \<open>
  A pass takes a cell neither below the smaller of 0 and its old value nor above the
  larger of 7 and its old value, so the cells of a 64-bit array never wrap around.
\<close>

lemma adjacent_cases:
  "adjacent c' c \<Longrightarrow>
   c' \<in> {(fst c, snd c + 1), (fst c, snd c - 1), (fst c + 1, snd c), (fst c - 1, snd c)}"
  by (cases c, cases c') (auto simp: adjacent_def)

lemma adjacent_count_le:
  assumes "distinct idxs"
  shows "length (filter (\<lambda>c'. adjacent c' c) idxs) \<le> 4"
proof -
  let ?N = "{(fst c, snd c + 1), (fst c, snd c - 1), (fst c + 1, snd c), (fst c - 1, snd c)}"
  have "length (filter (\<lambda>c'. adjacent c' c) idxs) = card (set (filter (\<lambda>c'. adjacent c' c) idxs))"
    using assms by (intro distinct_card [symmetric] distinct_filter)
  also have "\<dots> \<le> card ?N"
    by (intro card_mono) (auto dest: adjacent_cases)
  also have "\<dots> \<le> 4"
    by (simp add: card_insert_if)
  finally show ?thesis .
qed

lemma topple_pass_cell_bounds:
  assumes "shape n g" "in_grid n c"
  shows "min 0 (cell_at g c) \<le> cell_at (topple_pass n (np_where_ge4 g) g) c \<and>
         cell_at (topple_pass n (np_where_ge4 g) g) c \<le> max 7 (cell_at g c)"
proof -
  let ?I = "np_where_ge4 g"
  let ?k = "int (length (filter (\<lambda>c'. adjacent c' c) ?I))"
  have I: "\<forall>c\<in>set ?I. in_grid n c" using assms(1) by (auto intro: np_where_ge4_in_grid)
  have s: "(\<Sum>c'\<leftarrow>?I. self_loss c' c) = (if 4 \<le> cell_at g c then 4 else 0)"
    using assms by (simp add: sum_list_self_loss distinct_np_where np_where_ge4_iff)
  have e: "cell_at (topple_pass n ?I g) c = cell_at g c - (if 4 \<le> cell_at g c then 4 else 0) + ?k"
    using cell_at_topple_pass [OF assms(1) I assms(2)] s
      sum_list_spill_adjacent [OF assms(2) I] by simp
  have "?k \<le> 4" using adjacent_count_le [OF distinct_np_where, of c g] by simp
  moreover have "0 \<le> ?k" by simp
  ultimately show ?thesis unfolding e by (cases "4 \<le> cell_at g c") auto
qed

section \<open>The properties\<close>

text \<open>
  Claim C1. Conservation of sand. Take any list of drops, each \<^verbatim>\<open>add_sand\<close> followed by
  a full \<^verbatim>\<open>topple\<close> (and \<^verbatim>\<open>record_avalanche\<close>), from a grid whose cells are all
  below 4. The run returns, and the total mass of the final grid plus the grains lost off
  the boundary in all the passes equals the total mass of the initial grid plus the number
  of drops that hit the grid, which is also what the drop counter has advanced by.
\<close>

theorem sand_conservation:
  assumes "shape n (grid st)" and "stable (grid st)"
  shows "\<exists>st' lost. run_drops n drops st = Some st' \<and>
           run_drops_lost n drops (st, 0) = Some (st', lost) \<and>
           total_drops st' - total_drops st = int (length (filter (in_bounds n) drops)) \<and>
           grid_total (grid st') + lost = grid_total (grid st) + (total_drops st' - total_drops st)"
  using run_drops_accounts [OF assms, of drops 0] by auto

text \<open>
  The property at work: a 2 by 2 grid full of 3s, one drop on the corner and one drop
  outside. The avalanche topples four cells and loses 8 grains; 12 + 1 = 5 + 8.
\<close>

theorem sand_conservation_witness:
  "shape 2 [[3, 3], [3, 3]] \<and> stable [[3, 3], [3, 3]] \<and>
   run_drops 2 [(0, 0), (5, 5)] \<lparr>grid = [[3, 3], [3, 3]], avalanche_sizes = [], total_drops = 0\<rparr>
     = Some \<lparr>grid = [[2, 1], [1, 1]], avalanche_sizes = [4], total_drops = 1\<rparr> \<and>
   run_drops_lost 2 [(0, 0), (5, 5)]
       (\<lparr>grid = [[3, 3], [3, 3]], avalanche_sizes = [], total_drops = 0\<rparr>, 0)
     = Some (\<lparr>grid = [[2, 1], [1, 1]], avalanche_sizes = [4], total_drops = 1\<rparr>, 8) \<and>
   grid_total [[2, 1], [1, 1]] + 8 = grid_total [[3, 3], [3, 3]] + 1"
proof -
  let ?st = "\<lparr>grid = [[3, 3], [3, 3]], avalanche_sizes = [], total_drops = 0\<rparr>"
  let ?st' = "\<lparr>grid = [[2, 1], [1, 1]], avalanche_sizes = [4], total_drops = 1\<rparr>"
  have h1: "shape 2 (grid ?st)" by (simp add: shape_def)
  have h2: "stable (grid ?st)" by (simp add: stable_def)
  have r1: "run_drops 2 [(0, 0), (5, 5)] ?st = Some ?st'" by code_simp
  have r2: "run_drops_lost 2 [(0, 0), (5, 5)] (?st, 0) = Some (?st', 8)" by code_simp
  from sand_conservation [OF h1 h2, of "[(0, 0), (5, 5)]"] r1 r2
  have "grid_total (grid ?st') + 8 = grid_total (grid ?st) + (total_drops ?st' - total_drops ?st)"
    by simp
  with h1 h2 r1 r2 show ?thesis by simp
qed

text \<open>
  Claim C2. Stability after \<^verbatim>\<open>topple\<close>: on a grid of the shape \<open>n \<times> n\<close> the call
  returns, and in the grid it leaves every cell is below 4.
\<close>

theorem topple_leaves_stable:
  assumes "shape n (grid st)"
  shows "\<exists>st' sz. topple n st = Some (st', sz) \<and> stable (grid st')"
  using topple_returns [OF assms] by auto

text \<open>The property at work on a 2 by 2 grid with two cells to topple.\<close>

theorem topple_leaves_stable_witness:
  "shape 2 [[0, 5], [4, 1]] \<and>
   topple 2 \<lparr>grid = [[0, 5], [4, 1]], avalanche_sizes = [], total_drops = 9\<rparr>
     = Some (\<lparr>grid = [[2, 1], [0, 3]], avalanche_sizes = [], total_drops = 9\<rparr>, 2) \<and>
   stable [[2, 1], [0, 3]]"
proof -
  let ?st = "\<lparr>grid = [[0, 5], [4, 1]], avalanche_sizes = [], total_drops = 9\<rparr>"
  have h: "shape 2 (grid ?st)" by (simp add: shape_def)
  have r: "topple 2 ?st
     = Some (\<lparr>grid = [[2, 1], [0, 3]], avalanche_sizes = [], total_drops = 9\<rparr>, 2)"
    by code_simp
  from topple_leaves_stable [OF h] r have "stable [[2, 1], [0, 3]]" by simp
  with h r show ?thesis by simp
qed

text \<open>
  Claim C3. Order independence. A stabilisation that processes the unstable cells of each
  pass in an arbitrary order (the relation \<open>topple_any_order\<close>) always ends with the
  same grid and the same avalanche size: any two such runs agree, and their result is the
  one \<^verbatim>\<open>topple\<close> computes with the row-major order of \<^verbatim>\<open>np.where\<close>.
\<close>

theorem topple_order_independent:
  assumes "topple_any_order n g tot r" and "topple_any_order n g tot r'"
  shows "r' = r \<and> topple_loop n g tot = Some r"
  using assms [THEN topple_any_order_loop] by simp


text \<open>
  The property at work: the two cells at or above 4 are toppled in reverse order in one
  run and in row-major order in the other.
\<close>

theorem topple_order_independent_witness:
  "topple_any_order 2 [[0, 5], [4, 1]] 0 ([[2, 1], [0, 3]], 2) \<and>
   topple_loop 2 [[0, 5], [4, 1]] 0 = Some ([[2, 1], [0, 3]], 2)"
proof -
  let ?g = "[[0, 5], [4, 1]] :: grid"
  have u: "np_any_ge4 ?g" by code_simp
  have w: "np_where_ge4 ?g = [(0, 1), (1, 0)]" by code_simp
  have s: "\<not> np_any_ge4 [[2, 1], [0, 3]]" by code_simp
  have p1: "topple_pass 2 [(1, 0), (0, 1)] ?g = [[2, 1], [0, 3]]" by code_simp
  have p2: "topple_pass 2 [(0, 1), (1, 0)] ?g = [[2, 1], [0, 3]]" by code_simp
  have m1: "mset [(1, 0), (0, 1)] = mset (np_where_ge4 ?g)"
    unfolding w by (simp add: add_mset_commute)
  have m2: "mset [(0, 1), (1, 0)] = mset (np_where_ge4 ?g)"
    unfolding w by (rule refl)
  have l1: "length [(1::nat, 0::nat), (0, 1)] \<noteq> 0" and l2: "length [(0::nat, 1::nat), (1, 0)] \<noteq> 0"
    by simp_all
  have f: "topple_any_order 2 [[2, 1], [0, 3]] 2 ([[2, 1], [0, 3]], 2)"
    using s by (rule topple_any_order.finished)
  have f1: "topple_any_order 2 (topple_pass 2 [(1, 0), (0, 1)] ?g) (0 + int (length [(1::nat, 0::nat), (0, 1)]))
     ([[2, 1], [0, 3]], 2)"
    unfolding p1 using f by simp
  have f2: "topple_any_order 2 (topple_pass 2 [(0, 1), (1, 0)] ?g) (0 + int (length [(0::nat, 1::nat), (1, 0)]))
     ([[2, 1], [0, 3]], 2)"
    unfolding p2 using f by simp
  have r1: "topple_any_order 2 ?g 0 ([[2, 1], [0, 3]], 2)"
    using u m1 l1 f1 by (rule topple_any_order.pass)
  have r2: "topple_any_order 2 ?g 0 ([[2, 1], [0, 3]], 2)"
    using u m2 l2 f2 by (rule topple_any_order.pass)
  from topple_order_independent [OF r1 r2] r1 show ?thesis by simp
qed

text \<open>
  Claim C4. Termination: on every \<open>n \<times> n\<close> grid of non-negative integers the loop of
  \<^verbatim>\<open>topple\<close> ends after finitely many passes, that is, \<^verbatim>\<open>topple\<close> returns.
  (The potential of the grid, a non-negative integer, falls by at least 4 in every pass:
  lemma \<open>potential_decreases\<close>. Lemma \<open>topple_returns\<close> does not need the cells to be
  non-negative.)
\<close>

theorem topple_terminates:
  assumes "shape n (grid st)" and "list_all (list_all (\<lambda>v. 0 \<le> v)) (grid st)"
  shows "\<exists>r. topple n st = Some r"
  using topple_returns [OF assms(1)] by auto

text \<open>The property at work on a 3 by 3 grid that needs several passes.\<close>

theorem topple_terminates_witness:
  "shape 3 [[4, 4, 4], [4, 4, 4], [4, 4, 4]] \<and>
   list_all (list_all (\<lambda>v. 0 \<le> v)) [[4, 4, 4], [4, 4, 4], [4, 4, 4 :: int]] \<and>
   (\<exists>r. topple 3 \<lparr>grid = [[4, 4, 4], [4, 4, 4], [4, 4, 4]], avalanche_sizes = [], total_drops = 0\<rparr>
      = Some r)"
proof -
  let ?st = "\<lparr>grid = [[4, 4, 4], [4, 4, 4], [4, 4, 4]], avalanche_sizes = [], total_drops = 0\<rparr>"
  have h1: "shape 3 (grid ?st)" by (simp add: shape_def)
  have h2: "list_all (list_all (\<lambda>v. 0 \<le> v)) (grid ?st)" by simp
  from topple_terminates [OF h1 h2] h1 h2 show ?thesis by simp
qed

text \<open>
  Claim C5 says that the grid is a torus: the grains of a toppling edge or corner cell
  wrap around and none is lost. The code does not wrap. The four guards of the loop body
  skip a neighbour that would lie outside the grid, and the grain meant for it is gone: a
  corner cell of a 3 by 3 grid that topples from 4 leaves a total mass of 2, and the cells
  on the opposite edges stay empty.
\<close>

theorem toroidal_counterexample:
  "np_where_ge4 [[4, 0, 0], [0, 0, 0], [0, 0, 0]] = [(0, 0)] \<and>
   topple_pass 3 [(0, 0)] [[4, 0, 0], [0, 0, 0], [0, 0, 0]] = [[0, 1, 0], [1, 0, 0], [0, 0, 0]] \<and>
   grid_total [[4, 0, 0], [0, 0, 0], [0, 0, 0]] = 4 \<and>
   grid_total [[0, 1, 0], [1, 0, 0], [0, 0, 0]] = 2 \<and>
   topple_loop 3 [[4, 0, 0], [0, 0, 0], [0, 0, 0]] 0 = Some ([[0, 1, 0], [1, 0, 0], [0, 0, 0]], 1)"
  by code_simp

text \<open>
  Claim C5, amended. The boundary is open. In a pass every cell at or above 4 loses 4
  grains and every cell of the grid receives one grain from each cell toppled in the pass
  that is next to it in its row or in its column, without wrapping around the edges. The
  grains meant for neighbours outside the grid are lost: the total mass falls by 4 minus
  the number of in-grid neighbours, summed over the cells toppled.
\<close>

theorem topple_pass_open_boundary:
  assumes "shape n g"
  shows "(\<forall>c. in_grid n c \<longrightarrow>
            cell_at (topple_pass n (np_where_ge4 g) g) c =
              cell_at g c - (if 4 \<le> cell_at g c then 4 else 0)
                + int (length (filter (\<lambda>c'. adjacent c' c) (np_where_ge4 g)))) \<and>
         grid_total (topple_pass n (np_where_ge4 g) g)
           = grid_total g - (\<Sum>c\<leftarrow>np_where_ge4 g. 4 - delivered n c)"
proof (intro conjI allI impI)
  let ?I = "np_where_ge4 g"
  have I: "\<forall>c\<in>set ?I. in_grid n c" using assms by (auto intro: np_where_ge4_in_grid)
  show "grid_total (topple_pass n ?I g) = grid_total g - (\<Sum>c\<leftarrow>?I. 4 - delivered n c)"
    using topple_pass_where_total [OF assms] by (simp add: pass_loss_def)
  fix c assume c: "in_grid n c"
  have "(\<Sum>c'\<leftarrow>?I. self_loss c' c) = (if 4 \<le> cell_at g c then 4 else 0)"
    using c assms by (simp add: sum_list_self_loss distinct_np_where np_where_ge4_iff)
  then show "cell_at (topple_pass n ?I g) c =
      cell_at g c - (if 4 \<le> cell_at g c then 4 else 0)
        + int (length (filter (\<lambda>c'. adjacent c' c) ?I))"
    using cell_at_topple_pass [OF assms I c] sum_list_spill_adjacent [OF c I] by simp
qed

text \<open>
  The amended property at work: a corner and its opposite corner topple in one pass of a
  3 by 3 grid; each loses 2 grains off the grid.
\<close>

theorem topple_pass_open_boundary_witness:
  "shape 3 [[4, 0, 0], [0, 0, 0], [0, 0, 5]] \<and> in_grid 3 (0, 1) \<and>
   np_where_ge4 [[4, 0, 0], [0, 0, 0], [0, 0, 5]] = [(0, 0), (2, 2)] \<and>
   cell_at (topple_pass 3 [(0, 0), (2, 2)] [[4, 0, 0], [0, 0, 0], [0, 0, 5]]) (0, 1) = 1 \<and>
   grid_total (topple_pass 3 [(0, 0), (2, 2)] [[4, 0, 0], [0, 0, 0], [0, 0, 5]]) = 9 - 4"
proof -
  let ?g = "[[4, 0, 0], [0, 0, 0], [0, 0, 5]] :: grid"
  have s: "shape 3 ?g" by (simp add: shape_def)
  have c: "in_grid 3 (0, 1)" by (simp add: in_grid_def)
  have w: "np_where_ge4 ?g = [(0, 0), (2, 2)]" by code_simp
  have a: "filter (\<lambda>c'. adjacent c' (0, 1)) [(0, 0), (2, 2)] = [(0, 0)]"
    by (simp add: adjacent_def)
  have d: "(\<Sum>c\<leftarrow>[(0, 0), (2, 2)]. 4 - delivered 3 c) = 4" by (simp add: delivered_def)
  have t: "grid_total ?g = 9" by (simp add: grid_total_def)
  have v: "cell_at ?g (0, 1) = 0" by (simp add: cell_at_def)
  from topple_pass_open_boundary [OF s] c
  have "cell_at (topple_pass 3 (np_where_ge4 ?g) ?g) (0, 1) =
      cell_at ?g (0, 1) - (if 4 \<le> cell_at ?g (0, 1) then 4 else 0)
        + int (length (filter (\<lambda>c'. adjacent c' (0, 1)) (np_where_ge4 ?g)))"
    and "grid_total (topple_pass 3 (np_where_ge4 ?g) ?g)
           = grid_total ?g - (\<Sum>c\<leftarrow>np_where_ge4 ?g. 4 - delivered 3 c)"
    by blast+
  then show ?thesis unfolding w a d t v using s c by simp
qed

text \<open>
  Claim C6. A call of \<^verbatim>\<open>add_sand\<close> whose target is outside the grid changes nothing:
  the state, and with it the grid and the drop counter, stays as it was. A call whose
  target is inside the grid adds 1 to the target cell, leaves every other cell as it was,
  adds 1 to the drop counter and leaves the avalanche series alone. The target cell is a
  64-bit cell below the top of its range, \<open>2\<^sup>6\<^sup>3 - 1\<close>; at the top the addition of the
  array wraps around (lemma \<open>add_sand_wraps_at_max\<close>). Between drops every cell is below 4
  (lemma \<open>drop_cycle_accounts\<close>).
\<close>

theorem add_sand_bounds_policy:
  "(\<not> in_bounds n (x, y) \<longrightarrow> add_sand n x y st = st) \<and>
   (in_bounds n (x, y) \<and> shape n (grid st) \<and> cell_at (grid st) (nat y, nat x) < 2 ^ 63 - 1 \<longrightarrow>
      shape n (grid (add_sand n x y st)) \<and>
      (\<forall>c. in_grid n c \<longrightarrow>
         cell_at (grid (add_sand n x y st)) c
           = cell_at (grid st) c + (if c = (nat y, nat x) then 1 else 0)) \<and>
      total_drops (add_sand n x y st) = total_drops st + 1 \<and>
      avalanche_sizes (add_sand n x y st) = avalanche_sizes st)"
proof (intro conjI impI allI)
  assume "\<not> in_bounds n (x, y)"
  then show "add_sand n x y st = st" by (rule add_sand_out_of_bounds)
next
  assume a: "in_bounds n (x, y) \<and> shape n (grid st) \<and> cell_at (grid st) (nat y, nat x) < 2 ^ 63 - 1"
  then have b: "in_bounds n (x, y)" and s: "shape n (grid st)"
    and m: "cell_at (grid st) (nat y, nat x) < 2 ^ 63 - 1"
    by simp_all
  note e = add_sand_no_overflow [OF b m]
  show "shape n (grid (add_sand n x y st))" using s by (rule add_sand_shape)
  show "total_drops (add_sand n x y st) = total_drops st + 1" by (simp add: e)
  show "avalanche_sizes (add_sand n x y st) = avalanche_sizes st" by (simp add: e)
  fix c assume c: "in_grid n c"
  from b have "nat y < n" "nat x < n" by (auto simp: in_bounds_def)
  with s c show "cell_at (grid (add_sand n x y st)) c
           = cell_at (grid st) c + (if c = (nat y, nat x) then 1 else 0)"
    by (simp add: e cell_at_add_at)
qed

text \<open>The property at work on a 2 by 2 grid: a drop at column 2, and a drop at column 1 of row 0.\<close>

theorem add_sand_bounds_policy_witness:
  "\<not> in_bounds 2 (2, 0) \<and>
   add_sand 2 2 0 \<lparr>grid = [[0, 1], [2, 3]], avalanche_sizes = [], total_drops = 7\<rparr>
     = \<lparr>grid = [[0, 1], [2, 3]], avalanche_sizes = [], total_drops = 7\<rparr> \<and>
   in_bounds 2 (1, 0) \<and> shape 2 [[0, 1], [2, 3]] \<and>
   cell_at [[0, 1], [2, 3]] (nat 0, nat 1) < 2 ^ 63 - 1 \<and> in_grid 2 (0, 1) \<and>
   cell_at (grid (add_sand 2 1 0 \<lparr>grid = [[0, 1], [2, 3]], avalanche_sizes = [], total_drops = 7\<rparr>)) (0, 1) = 2 \<and>
   total_drops (add_sand 2 1 0 \<lparr>grid = [[0, 1], [2, 3]], avalanche_sizes = [], total_drops = 7\<rparr>) = 8"
proof -
  let ?st = "\<lparr>grid = [[0, 1], [2, 3]], avalanche_sizes = [], total_drops = 7\<rparr>"
  have o: "\<not> in_bounds 2 (2, 0)" by (simp add: in_bounds_def)
  have i: "in_bounds 2 (1, 0) \<and> shape 2 (grid ?st) \<and> cell_at (grid ?st) (nat 0, nat 1) < 2 ^ 63 - 1"
    by (simp add: in_bounds_def shape_def cell_at_def)
  have c: "in_grid 2 (0, 1)" by (simp add: in_grid_def)
  from add_sand_bounds_policy [of 2 2 0 ?st] o
  have 1: "add_sand 2 2 0 ?st = ?st" by blast
  from add_sand_bounds_policy [of 2 1 0 ?st] i c
  have 2: "cell_at (grid (add_sand 2 1 0 ?st)) (0, 1)
             = cell_at (grid ?st) (0, 1) + (if (0, 1) = (nat 0, nat 1) then 1 else 0)"
    and 3: "total_drops (add_sand 2 1 0 ?st) = total_drops ?st + 1"
    by blast+
  show ?thesis using o i c 1 2 3 by (simp add: cell_at_def)
qed

text \<open>
  Claim C7. \<^verbatim>\<open>record_avalanche\<close> appends its argument to the series if the argument
  is positive and leaves the series alone otherwise. In particular, a drop onto a stable
  grid that leaves the target cell below 4 makes \<^verbatim>\<open>topple\<close> return 0 with the grid
  untouched, and the whole cycle leaves the series as it was.
\<close>

theorem record_avalanche_iff_positive:
  "(0 < sz \<longrightarrow> avalanche_sizes (record_avalanche sz st) = avalanche_sizes st @ [sz]) \<and>
   (\<not> 0 < sz \<longrightarrow> avalanche_sizes (record_avalanche sz st) = avalanche_sizes st) \<and>
   (shape n (grid st) \<and> stable (grid st) \<and> in_bounds n (x, y) \<and>
    cell_at (grid st) (nat y, nat x) + 1 < 4 \<longrightarrow>
      topple n (add_sand n x y st) = Some (add_sand n x y st, 0) \<and>
      drop_cycle n (x, y) st = Some (add_sand n x y st) \<and>
      avalanche_sizes (add_sand n x y st) = avalanche_sizes st)"
proof (intro conjI impI)
  show "avalanche_sizes (record_avalanche sz st) = avalanche_sizes st @ [sz]" if "0 < sz"
    using that by (simp add: record_avalanche_def)
  show "avalanche_sizes (record_avalanche sz st) = avalanche_sizes st" if "\<not> 0 < sz"
    using that by (simp add: record_avalanche_def)
  assume a: "shape n (grid st) \<and> stable (grid st) \<and> in_bounds n (x, y) \<and>
    cell_at (grid st) (nat y, nat x) + 1 < 4"
  let ?st = "add_sand n x y st"
  from a have "stable (grid ?st)" by (intro stable_add_sand) simp_all
  then have "topple_loop n (grid ?st) 0 = Some (grid ?st, 0)"
    by (simp add: topple_loop_stable stable_iff_not_any)
  then show t: "topple n ?st = Some (?st, 0)" by (simp add: topple_def)
  then show "drop_cycle n (x, y) st = Some ?st"
    by (simp add: drop_cycle_def record_avalanche_def)
  show "avalanche_sizes ?st = avalanche_sizes st" by (simp add: add_sand_def)
qed

text \<open>The property at work: sizes 3 and 0, and a drop on a cell holding 2.\<close>

theorem record_avalanche_iff_positive_witness:
  "avalanche_sizes (record_avalanche 3 \<lparr>grid = [[0, 2], [3, 1]], avalanche_sizes = [5], total_drops = 6\<rparr>) = [5, 3] \<and>
   avalanche_sizes (record_avalanche 0 \<lparr>grid = [[0, 2], [3, 1]], avalanche_sizes = [5], total_drops = 6\<rparr>) = [5] \<and>
   shape 2 [[0, 2], [3, 1]] \<and> stable [[0, 2], [3, 1]] \<and> in_bounds 2 (1, 0) \<and>
   cell_at [[0, 2], [3, 1]] (nat 0, nat 1) + 1 < 4 \<and>
   drop_cycle 2 (1, 0) \<lparr>grid = [[0, 2], [3, 1]], avalanche_sizes = [5], total_drops = 6\<rparr>
     = Some \<lparr>grid = [[0, 3], [3, 1]], avalanche_sizes = [5], total_drops = 7\<rparr>"
proof -
  let ?st = "\<lparr>grid = [[0, 2], [3, 1]], avalanche_sizes = [5], total_drops = 6\<rparr>"
  have p: "(0::int) < 3" and z: "\<not> (0::int) < 0" by simp_all
  have h: "shape 2 (grid ?st) \<and> stable (grid ?st) \<and> in_bounds 2 (1, 0) \<and>
    cell_at (grid ?st) (nat 0, nat 1) + 1 < 4"
    by (simp add: shape_def stable_def in_bounds_def cell_at_def)
  have e: "add_sand 2 1 0 ?st = \<lparr>grid = [[0, 3], [3, 1]], avalanche_sizes = [5], total_drops = 7\<rparr>"
    by (simp add: add_sand_def inc_at_def int64_wrap_def)
  from record_avalanche_iff_positive [of 3 ?st 2 1 0] p h
  have 1: "avalanche_sizes (record_avalanche 3 ?st) = avalanche_sizes ?st @ [3]"
    and 2: "drop_cycle 2 (1, 0) ?st = Some (add_sand 2 1 0 ?st)"
    by blast+
  from record_avalanche_iff_positive [of 0 ?st 2 1 0] z
  have 3: "avalanche_sizes (record_avalanche 0 ?st) = avalanche_sizes ?st"
    by blast
  from 1 2 3 h show ?thesis unfolding e by simp
qed

text \<open>
  Claim C8. On a 5 by 5 grid of zeros, four drops on the cell \<open>(2, 2)\<close>, each followed by
  \<^verbatim>\<open>topple\<close>: after three drops the cell holds 3 and nothing has been recorded; the
  fourth drop takes it to 4; \<^verbatim>\<open>np.where\<close> finds that cell alone; one pass empties it,
  gives one grain to each of \<open>(1, 2)\<close>, \<open>(3, 2)\<close>, \<open>(2, 1)\<close> and \<open>(2, 3)\<close> and leaves
  a stable grid, so \<^verbatim>\<open>topple\<close> returns 1. At the end the series is \<open>[1]\<close>, the drop
  counter is 4 and the total mass is 4.
\<close>

theorem four_drops_scenario:
  "run_drops 5 [(2, 2), (2, 2), (2, 2)] \<lparr>grid = np_zeros 5, avalanche_sizes = [], total_drops = 0\<rparr>
     = Some \<lparr>grid = [[0, 0, 0, 0, 0], [0, 0, 0, 0, 0], [0, 0, 3, 0, 0], [0, 0, 0, 0, 0], [0, 0, 0, 0, 0]],
             avalanche_sizes = [], total_drops = 3\<rparr> \<and>
   add_sand 5 2 2 \<lparr>grid = [[0, 0, 0, 0, 0], [0, 0, 0, 0, 0], [0, 0, 3, 0, 0], [0, 0, 0, 0, 0], [0, 0, 0, 0, 0]],
             avalanche_sizes = [], total_drops = 3\<rparr>
     = \<lparr>grid = [[0, 0, 0, 0, 0], [0, 0, 0, 0, 0], [0, 0, 4, 0, 0], [0, 0, 0, 0, 0], [0, 0, 0, 0, 0]],
             avalanche_sizes = [], total_drops = 4\<rparr> \<and>
   np_where_ge4 [[0, 0, 0, 0, 0], [0, 0, 0, 0, 0], [0, 0, 4, 0, 0], [0, 0, 0, 0, 0], [0, 0, 0, 0, 0]]
     = [(2, 2)] \<and>
   topple_pass 5 [(2, 2)] [[0, 0, 0, 0, 0], [0, 0, 0, 0, 0], [0, 0, 4, 0, 0], [0, 0, 0, 0, 0], [0, 0, 0, 0, 0]]
     = [[0, 0, 0, 0, 0], [0, 0, 1, 0, 0], [0, 1, 0, 1, 0], [0, 0, 1, 0, 0], [0, 0, 0, 0, 0]] \<and>
   \<not> np_any_ge4 [[0, 0, 0, 0, 0], [0, 0, 1, 0, 0], [0, 1, 0, 1, 0], [0, 0, 1, 0, 0], [0, 0, 0, 0, 0]] \<and>
   topple 5 \<lparr>grid = [[0, 0, 0, 0, 0], [0, 0, 0, 0, 0], [0, 0, 4, 0, 0], [0, 0, 0, 0, 0], [0, 0, 0, 0, 0]],
             avalanche_sizes = [], total_drops = 4\<rparr>
     = Some (\<lparr>grid = [[0, 0, 0, 0, 0], [0, 0, 1, 0, 0], [0, 1, 0, 1, 0], [0, 0, 1, 0, 0], [0, 0, 0, 0, 0]],
             avalanche_sizes = [], total_drops = 4\<rparr>, 1) \<and>
   run_drops 5 [(2, 2), (2, 2), (2, 2), (2, 2)] \<lparr>grid = np_zeros 5, avalanche_sizes = [], total_drops = 0\<rparr>
     = Some \<lparr>grid = [[0, 0, 0, 0, 0], [0, 0, 1, 0, 0], [0, 1, 0, 1, 0], [0, 0, 1, 0, 0], [0, 0, 0, 0, 0]],
             avalanche_sizes = [1], total_drops = 4\<rparr> \<and>
   grid_total [[0, 0, 0, 0, 0], [0, 0, 1, 0, 0], [0, 1, 0, 1, 0], [0, 0, 1, 0, 0], [0, 0, 0, 0, 0]] = 4"
  by code_simp

text \<open>
  Claim C10. Whenever the loop condition \<^verbatim>\<open>np.any(grid >= 4)\<close> holds, the list of
  cells at or above 4 that \<^verbatim>\<open>np.where\<close> gives is not empty, so the \<^verbatim>\<open>break\<close> of
  the loop body is never taken: the loop goes on with the pass.
\<close>

theorem topple_break_unreachable:
  "np_any_ge4 g \<Longrightarrow>
     length (np_where_ge4 g) \<noteq> 0 \<and>
     topple_loop n g tot =
       topple_loop n (topple_pass n (np_where_ge4 g) g) (tot + int (length (np_where_ge4 g)))"
proof -
  assume u: "np_any_ge4 g"
  then have "np_where_ge4 g \<noteq> []" by (rule np_where_nonempty)
  then have l: "length (np_where_ge4 g) \<noteq> 0" by simp
  with u show ?thesis by (subst topple_loop.simps) (simp add: Let_def)
qed

text \<open>The property at work on a grid with two cells at or above 4.\<close>

theorem topple_break_unreachable_witness:
  "np_any_ge4 [[0, 5], [4, 1]] \<and> np_where_ge4 [[0, 5], [4, 1]] = [(0, 1), (1, 0)] \<and>
   topple_loop 2 [[0, 5], [4, 1]] 0 = topple_loop 2 (topple_pass 2 [(0, 1), (1, 0)] [[0, 5], [4, 1]]) 2"
proof -
  have u: "np_any_ge4 [[0, 5], [4, 1]]" by (simp add: np_any_ge4_def)
  have w: "np_where_ge4 [[0, 5], [4, 1]] = [(0, 1), (1, 0)]"
    by code_simp
  from topple_break_unreachable [OF u, of 2 0] u w show ?thesis by simp
qed

end
